theory Spec2Isabelle
  imports Main
begin

section \<open>Strings of the interpreter\<close>

text \<open>
  A Python \<open>str\<close> is a sequence of Unicode code points; it is modelled as a list of
  natural numbers, one per code point. \<open>pystr\<close> turns an ASCII literal of the logic
  into such a list, so that concrete inputs can be written as \<open>pystr ''3-5,4''\<close>.
\<close>

type_synonym pystr = "nat list"

definition pystr :: "string \<Rightarrow> pystr" where
  "pystr s = map of_char s"

definition COMMA :: nat where "COMMA = 44"
definition HYPHEN :: nat where "HYPHEN = 45"
definition PLUS :: nat where "PLUS = 43"
definition UNDERSCORE :: nat where "UNDERSCORE = 95"

text \<open>
  \<open>str.isspace\<close>, the class of characters that \<open>str.strip()\<close> removes: the ASCII
  controls TAB..CR and FS..US, the space, NEL, NBSP, and the Unicode space separators.
\<close>

definition py_isspace :: "nat \<Rightarrow> bool" where
  "py_isspace c \<longleftrightarrow>
     (9 \<le> c \<and> c \<le> 13) \<or> (28 \<le> c \<and> c \<le> 32) \<or> c = 133 \<or> c = 160 \<or> c = 5760 \<or>
     (8192 \<le> c \<and> c \<le> 8202) \<or> c = 8232 \<or> c = 8233 \<or> c = 8239 \<or> c = 8287 \<or>
     c = 12288"

text \<open>\<open>s.strip()\<close>: leading, then trailing whitespace is removed.\<close>

definition str_strip :: "pystr \<Rightarrow> pystr" where
  "str_strip s = rev (dropWhile py_isspace (rev (dropWhile py_isspace s)))"

text \<open>
  \<open>s.split(sep)\<close> for a separator of one character: the fields between the
  separators, empty fields kept; the result always has at least one field.
\<close>

fun str_split :: "nat \<Rightarrow> pystr \<Rightarrow> pystr list" where
  "str_split sep [] = [[]]"
| "str_split sep (c # cs) =
     (if c = sep then [] # str_split sep cs
      else (case str_split sep cs of
              [] \<Rightarrow> [[c]]
            | g # gs \<Rightarrow> (c # g) # gs))"

section \<open>The built-in \<open>int\<close> on strings\<close>

text \<open>
  \<open>int(s)\<close> in base 10, as CPython computes it. The string is first brought to ASCII:
  a character below 127 is kept, any other whitespace character becomes a space, any
  other decimal digit (Unicode category Nd, here the table of Unicode 14.0, each entry
  the zero of a run of ten digits) becomes the ASCII digit of its value, and anything
  else becomes a question mark, on which the conversion fails.
\<close>

definition nd_zeros :: "nat list" where
  "nd_zeros =
    [1632, 1776, 1984, 2406, 2534, 2662, 2790, 2918, 3046, 3174, 3302, 3430, 3558, 3664,
     3792, 3872, 4160, 4240, 6112, 6160, 6470, 6608, 6784, 6800, 6992, 7088, 7232, 7248,
     42528, 43216, 43264, 43472, 43504, 43600, 44016, 65296, 66720, 68912, 69734, 69872,
     69942, 70096, 70384, 70736, 70864, 71248, 71360, 71472, 71904, 72016, 72784, 73040,
     73120, 92768, 92864, 93008, 120782, 120792, 120802, 120812, 120822, 123200, 123632,
     125264, 130032]"

definition py_todecimal :: "nat \<Rightarrow> nat option" where
  "py_todecimal c =
     (case find (\<lambda>z. z \<le> c \<and> c < z + 10) nd_zeros of
        None \<Rightarrow> None
      | Some z \<Rightarrow> Some (c - z))"

definition to_ascii :: "nat \<Rightarrow> nat" where
  "to_ascii c =
     (if c < 127 then c
      else if py_isspace c then 32
      else (case py_todecimal c of Some d \<Rightarrow> 48 + d | None \<Rightarrow> 63))"

text \<open>
  The ASCII string is then read as: whitespace (TAB..CR and the space only), an optional
  sign, decimal digits with single underscores allowed between two digits, whitespace,
  and the end of the string. Python's integers are unbounded, but \<open>int\<close> refuses,
  with the same \<open>ValueError\<close>, a string with more digits than
  \<open>sys.get_int_max_str_digits()\<close>; the program leaves this limit at its default
  of 4300. Leading zeros count, underscores, sign and whitespace do not.
\<close>

definition int_max_str_digits :: nat where
  "int_max_str_digits = 4300"

definition ascii_isspace :: "nat \<Rightarrow> bool" where
  "ascii_isspace c \<longleftrightarrow> c = 32 \<or> (9 \<le> c \<and> c \<le> 13)"

definition ascii_isdigit :: "nat \<Rightarrow> bool" where
  "ascii_isdigit c \<longleftrightarrow> 48 \<le> c \<and> c \<le> 57"

definition digits_value :: "nat list \<Rightarrow> int" where
  "digits_value ds = foldl (\<lambda>a c. 10 * a + int (c - 48)) 0 ds"

text \<open>
  The part after the sign: the run of digits and underscores, which must split at the
  underscores into non-empty groups of digits, at most \<open>int_max_str_digits\<close> digits
  in all, then whitespace up to the end.
\<close>

definition digits_part :: "nat list \<Rightarrow> int option" where
  "digits_part s =
     (let body = takeWhile (\<lambda>c. ascii_isdigit c \<or> c = UNDERSCORE) s;
          rest = dropWhile (\<lambda>c. ascii_isdigit c \<or> c = UNDERSCORE) s;
          groups = str_split UNDERSCORE body
      in if (\<forall>g \<in> set groups. g \<noteq> []) \<and> dropWhile ascii_isspace rest = [] \<and>
            length (concat groups) \<le> int_max_str_digits
         then Some (digits_value (concat groups))
         else None)"

definition long_from_string :: "nat list \<Rightarrow> int option" where
  "long_from_string s =
     (case dropWhile ascii_isspace s of
        [] \<Rightarrow> None
      | c # r \<Rightarrow>
          if c = HYPHEN then map_option uminus (digits_part r)
          else if c = PLUS then digits_part r
          else digits_part (c # r))"

definition py_int :: "pystr \<Rightarrow> int option" where
  "py_int s = long_from_string (map to_ascii s)"

section \<open>\<open>parse_page_ranges\<close>\<close>

text \<open>
  The exceptions that leave \<open>parse_page_ranges\<close>. Three are the \<open>ValueError\<close>s
  that it raises itself, each with the token it names in its message:
  \<open>Rango inv\'alido: 'part'\<close>, \<open>Rango inv\'alido: 'part' (inicio > fin)\<close> and
  \<open>N\'umero de p\'agina inv\'alido: 'part'\<close>. The fourth is the
  \<open>OverflowError\<close> of \<open>pages.extend(range(start, end + 1))\<close> for a range of more
  than \<open>sys.maxsize\<close> values, whose length \<open>extend\<close> asks for first; it is no
  \<open>ValueError\<close>, so no handler of the program catches it. \<open>sys.maxsize\<close> is
  that of a 64-bit interpreter.
\<close>

datatype error =
    InvalidRange pystr
  | InvalidRangeOrder pystr
  | InvalidPageNumber pystr
  | OverflowError

definition maxsize :: int where
  "maxsize = 2 ^ 63 - 1"

text \<open>
  The body of the first loop for one stripped, non-empty token: the values that this
  iteration appends to \<open>pages\<close>, or the error it raises. Memory is taken as
  unbounded: a \<open>MemoryError\<close>, here or anywhere else, is not modelled. In the range branch
  \<open>start, end = map(int, part.split('-'))\<close> raises \<open>ValueError\<close> when a field is
  not an integer and also when there are not exactly two fields, and every such
  \<open>ValueError\<close> is re-raised as the same invalid-range error.
\<close>

definition parse_part :: "pystr \<Rightarrow> error + int list" where
  "parse_part part =
     (if HYPHEN \<in> set part then
        (case str_split HYPHEN part of
           [a, b] \<Rightarrow>
             (case py_int a of
                None \<Rightarrow> Inl (InvalidRange part)
              | Some start \<Rightarrow>
                  (case py_int b of
                     None \<Rightarrow> Inl (InvalidRange part)
                   | Some end \<Rightarrow>
                       if start > end then Inl (InvalidRangeOrder part)
                       else if end + 1 - start > maxsize then Inl OverflowError
                       else Inr [start..end]))
         | _ \<Rightarrow> Inl (InvalidRange part))
      else
        (case py_int part of
           None \<Rightarrow> Inl (InvalidPageNumber part)
         | Some n \<Rightarrow> Inr [n]))"

text \<open>The first loop, over the comma-separated parts, with \<open>pages\<close> as its state.\<close>

fun parse_parts :: "pystr list \<Rightarrow> int list \<Rightarrow> error + int list" where
  "parse_parts [] pages = Inr pages"
| "parse_parts (p # ps) pages =
     (let part = str_strip p in
      if part = [] then parse_parts ps pages
      else (case parse_part part of
              Inl e \<Rightarrow> Inl e
            | Inr vs \<Rightarrow> parse_parts ps (pages @ vs)))"

text \<open>The second loop, with \<open>seen\<close> and \<open>valid_pages\<close> as its state.\<close>

fun filter_pages :: "int list \<Rightarrow> int \<Rightarrow> int set \<Rightarrow> int list \<Rightarrow> int list" where
  "filter_pages [] total_pages seen valid_pages = valid_pages"
| "filter_pages (p # ps) total_pages seen valid_pages =
     (if 1 \<le> p \<and> p \<le> total_pages \<and> p \<notin> seen
      then filter_pages ps total_pages (insert p seen) (valid_pages @ [p])
      else filter_pages ps total_pages seen valid_pages)"

definition parse_page_ranges :: "pystr \<Rightarrow> int \<Rightarrow> error + int list" where
  "parse_page_ranges page_ranges total_pages =
     (case parse_parts (str_split COMMA page_ranges) [] of
        Inl e \<Rightarrow> Inl e
      | Inr pages \<Rightarrow> Inr (filter_pages pages total_pages {} []))"

section \<open>\<open>extract_pages\<close>\<close>

text \<open>
  The document library is outside the program. What it does during one run is given
  by a record: whether \<open>fitz.open(input_pdf)\<close> raises or returns a document, and with
  how many pages; the 0-based source pages on which \<open>insert_pdf\<close> raises; and
  whether \<open>new_doc.save(output_pdf)\<close> succeeds. The other library calls
  (\<open>len\<close>, \<open>fitz.open()\<close>, \<open>close\<close>) are taken not to raise. The
  \<open>OverflowError\<close> of \<open>parse_page_ranges\<close> passes the handler of
  \<open>ValueError\<close> and leaves \<open>extract_pages\<close> uncaught, the source still open.
\<close>

record library =
  open_input :: "nat option"
  insert_raises :: "int list"
  save_ok :: bool

text \<open>What a run does to the two document handles and to the console, in order.\<close>

datatype event =
    OpenSource
  | CloseSource
  | NewOutput
  | InsertPage int
  | SaveOutput
  | CloseOutput
  | PrintDone

text \<open>The messages handed to \<open>sys.exit\<close>.\<close>

datatype message =
    OpenFailed
  | EmptyInput
  | RangeFormat error
  | NoValidPages
  | SaveFailed

text \<open>
  How \<open>extract_pages\<close> ends: it returns, it leaves the process through
  \<open>sys.exit(message)\<close>, or an exception that no handler catches leaves it.
\<close>

datatype outcome =
    Returned
  | SysExit message
  | Uncaught

text \<open>
  \<open>sys.exit\<close> with a string prints it on the error stream and exits with status 1;
  an uncaught exception ends the interpreter with status 1 as well.
\<close>

fun exit_status :: "outcome \<Rightarrow> nat" where
  "exit_status Returned = 0"
| "exit_status (SysExit m) = 1"
| "exit_status Uncaught = 1"

text \<open>
  The copy loop; the flag tells whether it ran to its end. \<open>insert_pdf\<close> is called
  with \<open>from_page = to_page = page_num - 1\<close>.
\<close>

fun insert_pages :: "int list \<Rightarrow> int list \<Rightarrow> event list \<Rightarrow> event list \<times> bool" where
  "insert_pages raises [] log = (log, True)"
| "insert_pages raises (page_num # rest) log =
     (if page_num - 1 \<in> set raises then (log, False)
      else insert_pages raises rest (log @ [InsertPage (page_num - 1)]))"

definition extract_pages :: "library \<Rightarrow> pystr \<Rightarrow> event list \<times> outcome" where
  "extract_pages lib page_ranges =
     (case open_input lib of
        None \<Rightarrow> ([], SysExit OpenFailed)
      | Some total_pages \<Rightarrow>
          if total_pages = 0 then ([OpenSource, CloseSource], SysExit EmptyInput)
          else
            (case parse_page_ranges page_ranges (int total_pages) of
               Inl e \<Rightarrow>
                 if e = OverflowError then ([OpenSource], Uncaught)
                 else ([OpenSource, CloseSource], SysExit (RangeFormat e))
             | Inr selected_pages \<Rightarrow>
                 if selected_pages = []
                 then ([OpenSource, CloseSource], SysExit NoValidPages)
                 else
                   (case insert_pages (insert_raises lib) selected_pages
                           [OpenSource, NewOutput] of
                      (log, False) \<Rightarrow> (log, Uncaught)
                    | (log, True) \<Rightarrow>
                        if save_ok lib
                        then (log @ [SaveOutput, CloseOutput, CloseSource, PrintDone],
                              Returned)
                        else (log @ [CloseOutput, CloseSource], SysExit SaveFailed))))"

section \<open>Notions used in the statements\<close>

text \<open>
  The values one comma-separated token contributes to the working sequence, and whether
  the loop gets past the token. Neither depends on \<open>total_pages\<close>.
\<close>

definition token_values :: "pystr \<Rightarrow> int list" where
  "token_values tok = (case parse_part (str_strip tok) of Inl _ \<Rightarrow> [] | Inr vs \<Rightarrow> vs)"

definition token_ok :: "pystr \<Rightarrow> bool" where
  "token_ok tok \<longleftrightarrow>
     str_strip tok = [] \<or>
     (case parse_part (str_strip tok) of Inl _ \<Rightarrow> False | Inr _ \<Rightarrow> True)"

text \<open>
  First-occurrence order, in the words of the specification: a value already emitted
  is skipped on every later occurrence.
\<close>

fun first_occurrences :: "int list \<Rightarrow> int list" where
  "first_occurrences [] = []"
| "first_occurrences (x # xs) = x # first_occurrences (removeAll x xs)"

text \<open>
  The whitespace that \<open>int\<close> tolerates around a number, and the characters it reads as
  decimal digits.
\<close>

definition int_space :: "nat \<Rightarrow> bool" where
  "int_space c \<longleftrightarrow> ascii_isspace (to_ascii c)"

definition is_decimal :: "nat \<Rightarrow> bool" where
  "is_decimal c \<longleftrightarrow> ascii_isdigit (to_ascii c)"

text \<open>
  Every handle of the log is opened at most once and closed as often as it was opened.
\<close>

definition released_once :: "event list \<Rightarrow> bool" where
  "released_once log \<longleftrightarrow>
     count_list log OpenSource \<le> 1 \<and>
     count_list log CloseSource = count_list log OpenSource \<and>
     count_list log NewOutput \<le> 1 \<and>
     count_list log CloseOutput = count_list log NewOutput"

section \<open>Evaluation\<close>

lemmas model_defs =
  parse_page_ranges_def pystr_def COMMA_def parse_part_def HYPHEN_def str_strip_def
  py_isspace_def py_int_def to_ascii_def long_from_string_def digits_part_def
  ascii_isspace_def ascii_isdigit_def UNDERSCORE_def PLUS_def digits_value_def upto.simps
  py_todecimal_def nd_zeros_def int_max_str_digits_def maxsize_def

section \<open>Splitting\<close>

lemma str_split_nonempty: "str_split sep s \<noteq> []"
  by (induction s) (auto split: list.splits)

lemma str_split_no_sep: "sep \<notin> set s \<Longrightarrow> str_split sep s = [s]"
  by (induction s) auto

lemma str_split_append_sep:
  "sep \<notin> set a \<Longrightarrow> str_split sep (a @ sep # b) = a # str_split sep b"
  by (induction a) auto

lemma length_str_split: "length (str_split sep s) = Suc (count_list s sep)"
  by (induction s) (auto split: list.splits simp: str_split_nonempty)

lemma str_split_fields_no_sep: "f \<in> set (str_split sep s) \<Longrightarrow> sep \<notin> set f"
  by (induction s arbitrary: f) (auto split: if_splits list.splits)

lemma str_split_append:
  "str_split sep (xs @ ys) =
     butlast (str_split sep xs) @ [last (str_split sep xs) @ hd (str_split sep ys)]
       @ tl (str_split sep ys)"
proof (induction xs)
  case Nil
  then show ?case using str_split_nonempty [of sep ys] by (cases "str_split sep ys") auto
next
  case (Cons c cs)
  show ?case
  proof (cases "c = sep")
    case True
    then show ?thesis using Cons str_split_nonempty [of sep cs] by simp
  next
    case False
    obtain g gs where g: "str_split sep cs = g # gs"
      using str_split_nonempty [of sep cs] by (cases "str_split sep cs") auto
    show ?thesis
    proof (cases gs)
      case Nil
      with False g Cons show ?thesis by (simp split: list.splits)
    next
      case (Cons h hs)
      with False g Cons.IH show ?thesis by (simp split: list.splits)
    qed
  qed
qed

section \<open>The two loops\<close>

lemma filter_pages_set:
  "set (filter_pages ps t seen valid) =
     set valid \<union> {p \<in> set ps. 1 \<le> p \<and> p \<le> t \<and> p \<notin> seen}"
  by (induction ps t seen valid rule: filter_pages.induct) auto

lemma filter_pages_distinct:
  "distinct valid \<Longrightarrow> set valid \<subseteq> seen \<Longrightarrow> distinct (filter_pages ps t seen valid)"
  by (induction ps t seen valid rule: filter_pages.induct) auto

lemma filter_pages_first_occurrences:
  "filter_pages ps t seen valid =
     valid @ first_occurrences (filter (\<lambda>p. 1 \<le> p \<and> p \<le> t \<and> p \<notin> seen) ps)"
proof (induction ps t seen valid rule: filter_pages.induct)
  case (1 t seen valid)
  show ?case by simp
next
  case (2 p ps t seen valid)
  show ?case
  proof (cases "1 \<le> p \<and> p \<le> t \<and> p \<notin> seen")
    case True
    have "removeAll p (filter (\<lambda>q. 1 \<le> q \<and> q \<le> t \<and> q \<notin> seen) ps)
            = filter (\<lambda>q. 1 \<le> q \<and> q \<le> t \<and> q \<notin> insert p seen) ps"
      by (induction ps) auto
    with True 2 show ?thesis by simp
  next
    case False
    with 2 show ?thesis by auto
  qed
qed

lemma parse_parts_Inr_iff:
  "parse_parts ps acc = Inr pages \<longleftrightarrow>
     (\<forall>p \<in> set ps. token_ok p) \<and> pages = acc @ concat (map token_values ps)"
proof (induction ps arbitrary: acc)
  case Nil
  show ?case by auto
next
  case (Cons p ps)
  show ?case
  proof (cases "str_strip p = []")
    case True
    then have "token_values p = []"
      by (simp add: token_values_def parse_part_def py_int_def long_from_string_def)
    with True Cons show ?thesis by (simp add: token_ok_def)
  next
    case False
    then show ?thesis using Cons
      by (cases "parse_part (str_strip p)") (auto simp: token_ok_def token_values_def Let_def)
  qed
qed

lemma parse_parts_Inl_iff:
  "parse_parts ps acc = Inl e \<longleftrightarrow>
     (\<exists>pre p post. ps = pre @ p # post \<and> (\<forall>q \<in> set pre. token_ok q) \<and>
        str_strip p \<noteq> [] \<and> parse_part (str_strip p) = Inl e)"
proof (induction ps arbitrary: acc)
  case Nil
  show ?case by simp
next
  case (Cons a ps)
  show ?case
  proof (cases "token_ok a")
    case True
    have step: "parse_parts (a # ps) acc = parse_parts ps (acc @ token_values a)"
    proof (cases "str_strip a = []")
      case True
      then show ?thesis
        by (simp add: token_values_def parse_part_def py_int_def long_from_string_def)
    next
      case False
      with True show ?thesis
        by (cases "parse_part (str_strip a)") (auto simp: token_ok_def token_values_def)
    qed
    have ok: "str_strip a = [] \<or> (\<exists>vs. parse_part (str_strip a) = Inr vs)"
      using True by (auto simp: token_ok_def split: sum.splits)
    show ?thesis
    proof
      assume "parse_parts (a # ps) acc = Inl e"
      then have "parse_parts ps (acc @ token_values a) = Inl e"
        by (simp only: step)
      then have "\<exists>pre p post. ps = pre @ p # post \<and> (\<forall>q \<in> set pre. token_ok q) \<and>
        str_strip p \<noteq> [] \<and> parse_part (str_strip p) = Inl e"
        by (simp only: Cons.IH)
      then obtain pre p post where "ps = pre @ p # post" "\<forall>q \<in> set pre. token_ok q"
        "str_strip p \<noteq> []" "parse_part (str_strip p) = Inl e"
        by blast
      then have "a # ps = (a # pre) @ p # post \<and> (\<forall>q \<in> set (a # pre). token_ok q) \<and>
        str_strip p \<noteq> [] \<and> parse_part (str_strip p) = Inl e" using True by simp
      then show "\<exists>pre p post. a # ps = pre @ p # post \<and> (\<forall>q \<in> set pre. token_ok q) \<and>
        str_strip p \<noteq> [] \<and> parse_part (str_strip p) = Inl e" by blast
    next
      assume "\<exists>pre p post. a # ps = pre @ p # post \<and> (\<forall>q \<in> set pre. token_ok q) \<and>
        str_strip p \<noteq> [] \<and> parse_part (str_strip p) = Inl e"
      then obtain pre p post where h: "a # ps = pre @ p # post" "\<forall>q \<in> set pre. token_ok q"
        "str_strip p \<noteq> []" "parse_part (str_strip p) = Inl e" by blast
      have "pre \<noteq> []"
      proof
        assume "pre = []"
        with h have "a = p" by simp
        with ok h show False by auto
      qed
      then obtain pre' where "pre = a # pre'" "ps = pre' @ p # post"
        using h(1) by (cases pre) auto
      with h have "\<exists>pre p post. ps = pre @ p # post \<and> (\<forall>q \<in> set pre. token_ok q) \<and>
        str_strip p \<noteq> [] \<and> parse_part (str_strip p) = Inl e" by auto
      then have "parse_parts ps (acc @ token_values a) = Inl e"
        by (simp only: Cons.IH)
      then show "parse_parts (a # ps) acc = Inl e" by (simp only: step)
    qed
  next
    case False
    then obtain e' where e': "str_strip a \<noteq> []" "parse_part (str_strip a) = Inl e'"
      by (auto simp: token_ok_def split: sum.splits)
    then have res: "parse_parts (a # ps) acc = Inl e'" by simp
    show ?thesis
    proof
      assume "parse_parts (a # ps) acc = Inl e"
      with res have "e' = e" by simp
      with e' have "a # ps = [] @ a # ps \<and> (\<forall>q \<in> set []. token_ok q) \<and>
        str_strip a \<noteq> [] \<and> parse_part (str_strip a) = Inl e" by simp
      then show "\<exists>pre p post. a # ps = pre @ p # post \<and> (\<forall>q \<in> set pre. token_ok q) \<and>
        str_strip p \<noteq> [] \<and> parse_part (str_strip p) = Inl e" by blast
    next
      assume "\<exists>pre p post. a # ps = pre @ p # post \<and> (\<forall>q \<in> set pre. token_ok q) \<and>
        str_strip p \<noteq> [] \<and> parse_part (str_strip p) = Inl e"
      then obtain pre p post where h: "a # ps = pre @ p # post" "\<forall>q \<in> set pre. token_ok q"
        "str_strip p \<noteq> []" "parse_part (str_strip p) = Inl e" by blast
      have "pre = []"
      proof (cases pre)
        case Nil then show ?thesis .
      next
        case (Cons x xs)
        with h have "token_ok a" by simp
        with False show ?thesis by simp
      qed
      with h have "a = p" by simp
      with h e' have "e' = e" by simp
      with res show "parse_parts (a # ps) acc = Inl e" by simp
    qed
  qed
qed

section \<open>Characters and integers\<close>

lemma py_todecimal_less: "py_todecimal c = Some d \<Longrightarrow> d < 10"
  by (auto simp: py_todecimal_def find_Some_iff split: option.splits)

lemma to_ascii_high:
  assumes "127 \<le> c"
  shows "to_ascii c = 32 \<and> py_isspace c \<or> \<not> py_isspace c \<and> 48 \<le> to_ascii c \<and> to_ascii c \<le> 63"
proof (cases "py_isspace c")
  case True
  with assms show ?thesis by (simp add: to_ascii_def)
next
  case False
  show ?thesis
  proof (cases "py_todecimal c")
    case None
    with False assms show ?thesis by (simp add: to_ascii_def)
  next
    case (Some d)
    with False assms py_todecimal_less [OF Some] show ?thesis by (simp add: to_ascii_def)
  qed
qed

lemma to_ascii_HYPHEN: "to_ascii c = HYPHEN \<longleftrightarrow> c = HYPHEN"
proof (cases "c < 127")
  case True
  then show ?thesis by (simp add: to_ascii_def)
next
  case False
  then have "127 \<le> c" by simp
  from to_ascii_high [OF this] False show ?thesis by (auto simp: HYPHEN_def)
qed

lemma int_space_iff: "int_space c \<longleftrightarrow> py_isspace c \<and> \<not> (28 \<le> c \<and> c \<le> 31)"
proof (cases "c < 127")
  case True
  then have "to_ascii c = c" by (simp add: to_ascii_def)
  with True show ?thesis
    unfolding int_space_def ascii_isspace_def py_isspace_def by auto
next
  case False
  then have "127 \<le> c" by simp
  from to_ascii_high [OF this] False show ?thesis
    unfolding int_space_def ascii_isspace_def by auto
qed

lemma digits_value_nonneg: "0 \<le> digits_value ds"
proof -
  have "0 \<le> a \<Longrightarrow> 0 \<le> foldl (\<lambda>a c. 10 * a + int (c - 48)) a ds" for a
    by (induction ds arbitrary: a) auto
  then show ?thesis by (simp add: digits_value_def)
qed

lemma takeWhile_all_append:
  "\<forall>x \<in> set xs. P x \<Longrightarrow> takeWhile P (xs @ ys) = xs @ takeWhile P ys"
  by (induction xs) auto

lemma dropWhile_all_append:
  "\<forall>x \<in> set xs. P x \<Longrightarrow> dropWhile P (xs @ ys) = dropWhile P ys"
  by (induction xs) auto

lemma takeWhile_some_append:
  "\<not> (\<forall>x \<in> set xs. P x) \<Longrightarrow> takeWhile P (xs @ ys) = takeWhile P xs"
  by (induction xs) auto

lemma dropWhile_some_append:
  "\<not> (\<forall>x \<in> set xs. P x) \<Longrightarrow> dropWhile P (xs @ ys) = dropWhile P xs @ ys"
  by (induction xs) auto

lemma dropWhile_all_Nil: "\<forall>x \<in> set xs. P x \<Longrightarrow> dropWhile P xs = []"
  by (induction xs) auto

lemma takeWhile_none_Nil: "\<forall>x \<in> set xs. \<not> P x \<Longrightarrow> takeWhile P xs = []"
  by (cases xs) auto

lemma dropWhile_none_id: "\<forall>x \<in> set xs. \<not> P x \<Longrightarrow> dropWhile P xs = xs"
  by (cases xs) auto

lemma dropWhile_Cons_some: "dropWhile P xs = c # r \<Longrightarrow> \<not> (\<forall>x \<in> set xs. P x)"
  by (induction xs) (auto split: if_splits)

lemma dropWhile_Nil_append:
  "\<forall>c \<in> set w. P c \<Longrightarrow> (dropWhile P (r @ w) = []) = (dropWhile P r = [])"
  by (induction r) (auto simp: dropWhile_all_Nil)

lemma digits_part_append_space:
  assumes "\<forall>c \<in> set w. ascii_isspace c"
  shows "digits_part (s @ w) = digits_part s"
proof -
  let ?D = "\<lambda>c. ascii_isdigit c \<or> c = UNDERSCORE"
  have nD: "\<forall>c \<in> set w. \<not> ?D c"
    using assms by (auto simp: ascii_isspace_def ascii_isdigit_def UNDERSCORE_def)
  show ?thesis
  proof (cases "\<forall>c \<in> set s. ?D c")
    case True
    have "takeWhile ?D (s @ w) = s @ takeWhile ?D w"
      using True by (rule takeWhile_all_append)
    also have "takeWhile ?D w = []" using nD by (rule takeWhile_none_Nil)
    finally have 1: "takeWhile ?D (s @ w) = s" by simp
    have "takeWhile ?D (s @ []) = s @ takeWhile ?D []"
      using True by (rule takeWhile_all_append)
    then have 2: "takeWhile ?D s = s" by simp
    have "dropWhile ?D (s @ w) = dropWhile ?D w"
      using True by (rule dropWhile_all_append)
    also have "dropWhile ?D w = w" using nD by (rule dropWhile_none_id)
    finally have "dropWhile ascii_isspace (dropWhile ?D (s @ w)) = dropWhile ascii_isspace w"
      by simp
    also have "\<dots> = []" using assms by (rule dropWhile_all_Nil)
    finally have 3: "dropWhile ascii_isspace (dropWhile ?D (s @ w)) = []" .
    have d: "dropWhile ?D s = []" using True by (rule dropWhile_all_Nil)
    have 4: "dropWhile ascii_isspace (dropWhile ?D s) = []" unfolding d by simp
    show ?thesis unfolding digits_part_def Let_def 1 2 3 4 ..
  next
    case False
    have 1: "takeWhile ?D (s @ w) = takeWhile ?D s"
      using False by (rule takeWhile_some_append)
    have 2: "dropWhile ?D (s @ w) = dropWhile ?D s @ w"
      using False by (rule dropWhile_some_append)
    show ?thesis
      unfolding digits_part_def Let_def 1 2 dropWhile_Nil_append [OF assms] ..
  qed
qed

lemma digits_part_Some:
  assumes "digits_part s = Some v"
  shows "0 \<le> v" and "HYPHEN \<notin> set s" and "s \<noteq> []"
proof -
  let ?D = "\<lambda>c. ascii_isdigit c \<or> c = UNDERSCORE"
  from assms have ok: "\<forall>g \<in> set (str_split UNDERSCORE (takeWhile ?D s)). g \<noteq> []"
    "dropWhile ascii_isspace (dropWhile ?D s) = []"
    "v = digits_value (concat (str_split UNDERSCORE (takeWhile ?D s)))"
    by (auto simp: digits_part_def Let_def split: if_splits)
  show "0 \<le> v" using ok(3) digits_value_nonneg by simp
  have "set s = set (takeWhile ?D s) \<union> set (dropWhile ?D s)"
    by (metis set_append takeWhile_dropWhile_id)
  moreover have "\<forall>c \<in> set (dropWhile ?D s). ascii_isspace c"
    using ok(2) by simp
  moreover have "\<forall>c \<in> set (takeWhile ?D s). ?D c"
    by (auto dest: set_takeWhileD)
  ultimately show "HYPHEN \<notin> set s"
    by (auto simp: HYPHEN_def ascii_isspace_def ascii_isdigit_def UNDERSCORE_def)
  show "s \<noteq> []" using ok(1) by auto
qed

lemma long_from_string_prepend_space:
  "\<forall>c \<in> set w. ascii_isspace c \<Longrightarrow> long_from_string (w @ s) = long_from_string s"
  by (simp only: long_from_string_def dropWhile_all_append)

lemma long_from_string_append_space:
  assumes "\<forall>c \<in> set w. ascii_isspace c"
  shows "long_from_string (s @ w) = long_from_string s"
proof (cases "dropWhile ascii_isspace s")
  case Nil
  then have "\<forall>c \<in> set (s @ w). ascii_isspace c"
    using assms by auto
  then have a: "dropWhile ascii_isspace (s @ w) = []"
    by (rule dropWhile_all_Nil)
  show ?thesis unfolding long_from_string_def a Nil ..
next
  case (Cons c r)
  then have "\<not> (\<forall>x \<in> set s. ascii_isspace x)"
    by (rule dropWhile_Cons_some)
  then have "dropWhile ascii_isspace (s @ w) = dropWhile ascii_isspace s @ w"
    by (rule dropWhile_some_append)
  with Cons have "dropWhile ascii_isspace (s @ w) = c # (r @ w)"
    by simp
  with Cons show ?thesis
    using digits_part_append_space [OF assms, of r]
      digits_part_append_space [OF assms, of "c # r"]
    by (simp add: long_from_string_def)
qed

lemma long_from_string_all_space:
  assumes "\<forall>c \<in> set w. ascii_isspace c"
  shows "long_from_string w = None"
proof -
  have "dropWhile ascii_isspace w = []"
    using assms by (rule dropWhile_all_Nil)
  then show ?thesis unfolding long_from_string_def by (simp only: list.case)
qed

lemma long_from_string_before_hyphen:
  assumes "long_from_string s = Some v" and "HYPHEN \<in> set s"
  shows "\<forall>c \<in> set (takeWhile (\<lambda>c. c \<noteq> HYPHEN) s). ascii_isspace c"
proof (cases "dropWhile ascii_isspace s")
  case Nil
  with assms show ?thesis by (simp add: long_from_string_def)
next
  case (Cons c r)
  have s: "s = takeWhile ascii_isspace s @ c # r"
    using Cons by (metis takeWhile_dropWhile_id)
  have sp: "\<forall>x \<in> set (takeWhile ascii_isspace s). ascii_isspace x \<and> x \<noteq> HYPHEN"
    by (auto dest: set_takeWhileD simp: ascii_isspace_def HYPHEN_def)
  show ?thesis
  proof (cases "c = HYPHEN")
    case True
    have "takeWhile (\<lambda>c. c \<noteq> HYPHEN) (takeWhile ascii_isspace s @ c # r)
            = takeWhile ascii_isspace s"
      using sp True by (simp add: takeWhile_append)
    with s sp show ?thesis by metis
  next
    case False
    have "HYPHEN \<notin> set (c # r)"
    proof (cases "c = PLUS")
      case True
      with Cons assms(1) have "digits_part r \<noteq> None"
        by (simp add: long_from_string_def HYPHEN_def PLUS_def)
      then show ?thesis using digits_part_Some(2) [of r] False by auto
    next
      case nplus: False
      with Cons assms(1) False have "digits_part (c # r) \<noteq> None"
        by (simp add: long_from_string_def)
      then show ?thesis using digits_part_Some(2) [of "c # r"] by auto
    qed
    then have "HYPHEN \<notin> set s" using s sp
      by (metis Un_iff set_append)
    with assms(2) show ?thesis by simp
  qed
qed

lemma long_from_string_negative:
  assumes "long_from_string s = Some v" and "v < 0"
  shows "HYPHEN \<in> set s"
proof (cases "dropWhile ascii_isspace s")
  case Nil
  with assms show ?thesis by (simp add: long_from_string_def)
next
  case (Cons c r)
  have "c = HYPHEN"
  proof (rule ccontr)
    assume "c \<noteq> HYPHEN"
    with Cons assms(1) have "digits_part r = Some v \<or> digits_part (c # r) = Some v"
      by (simp add: long_from_string_def split: if_splits)
    then have "0 \<le> v" using digits_part_Some(1) by blast
    with assms(2) show False by simp
  qed
  then have "HYPHEN \<in> set (dropWhile ascii_isspace s)" using Cons by simp
  then show ?thesis by (metis set_dropWhileD)
qed

section \<open>Tokens\<close>

lemma str_split_fields_subset: "f \<in> set (str_split sep s) \<Longrightarrow> set f \<subseteq> set s"
  by (induction s arbitrary: f) (fastforce split: if_splits list.splits)+

lemma str_strip_all_space: "\<forall>c \<in> set f. py_isspace c \<Longrightarrow> str_strip f = []"
  by (simp add: str_strip_def dropWhile_all_Nil)

lemma token_values_empty: "str_strip tok = [] \<Longrightarrow> token_values tok = []"
  by (simp add: token_values_def parse_part_def py_int_def long_from_string_def)

section \<open>Duplicates, blank specifications and the empty selection\<close>

text \<open>
  C3. Whenever \<open>parse_page_ranges\<close> succeeds, for any page count, the list it returns
  has no duplicate value; a value already emitted is skipped also when it comes back in
  a later token: \<open>"3-5,4"\<close> with 10 pages gives \<open>[3, 4, 5]\<close>.
\<close>

theorem no_duplicates:
  "(parse_page_ranges spec t = Inr r \<longrightarrow> distinct r) \<and>
   parse_page_ranges (pystr ''3-5,4'') 10 = Inr [3, 4, 5]"
proof
  show "parse_page_ranges spec t = Inr r \<longrightarrow> distinct r"
  proof
    assume "parse_page_ranges spec t = Inr r"
    then obtain pages where "r = filter_pages pages t {} []"
      by (auto simp: parse_page_ranges_def split: sum.splits)
    then show "distinct r" by (simp add: filter_pages_distinct)
  qed
  show "parse_page_ranges (pystr ''3-5,4'') 10 = Inr [3, 4, 5]"
    by (simp add: model_defs)
qed

theorem no_duplicates_witness:
  "parse_page_ranges (pystr ''2,1-3,2'') 10 = Inr [2, 1, 3] \<and> distinct [2, 1, 3 :: int]"
proof -
  have h: "parse_page_ranges (pystr ''2,1-3,2'') 10 = Inr [2, 1, 3]"
    by (simp add: model_defs)
  with no_duplicates [of "pystr ''2,1-3,2''" 10 "[2, 1, 3]"] show ?thesis by blast
qed

text \<open>
  C8. A specification that is empty, or made only of whitespace and commas, gives the
  empty list and no error, for every page count.
\<close>

theorem blank_spec_empty:
  assumes "\<forall>c \<in> set spec. c = COMMA \<or> py_isspace c"
  shows "parse_page_ranges spec t = Inr []"
proof -
  have strip: "str_strip f = []" if "f \<in> set (str_split COMMA spec)" for f
  proof (rule str_strip_all_space, rule ballI)
    fix c assume "c \<in> set f"
    with that have "c \<in> set spec" "c \<noteq> COMMA"
      using str_split_fields_subset [OF that] str_split_fields_no_sep [OF that] by auto
    with assms show "py_isspace c" by auto
  qed
  then have "\<forall>f \<in> set (str_split COMMA spec). token_ok f"
    by (simp add: token_ok_def)
  moreover have "concat (map token_values (str_split COMMA spec)) = []"
    using strip by (simp add: token_values_empty)
  ultimately have "parse_parts (str_split COMMA spec) [] = Inr []"
    by (simp add: parse_parts_Inr_iff)
  then show ?thesis by (simp add: parse_page_ranges_def)
qed

theorem blank_spec_empty_witness:
  "parse_page_ranges (pystr '' , ,, '') 4 = Inr []"
  using blank_spec_empty [of "pystr '' , ,, ''" 4]
  by (simp add: pystr_def COMMA_def py_isspace_def)

text \<open>
  C7. When the source opens with at least one page and \<open>parse_page_ranges\<close> returns
  the empty list, \<open>extract_pages\<close> opens the source, closes it, and leaves through
  \<open>sys.exit\<close> with the no-valid-pages message and a non-zero status; no output
  document is created.
\<close>

theorem no_pages_selected:
  assumes "open_input lib = Some n" and "0 < n"
    and "parse_page_ranges spec (int n) = Inr []"
  shows "extract_pages lib spec = ([OpenSource, CloseSource], SysExit NoValidPages) \<and>
         exit_status (snd (extract_pages lib spec)) \<noteq> 0 \<and>
         NewOutput \<notin> set (fst (extract_pages lib spec))"
  using assms by (simp add: extract_pages_def)

theorem no_pages_selected_witness:
  "extract_pages \<lparr>open_input = Some 5, insert_raises = [], save_ok = True\<rparr> (pystr ''20'')
     = ([OpenSource, CloseSource], SysExit NoValidPages)"
proof -
  have "parse_page_ranges (pystr ''20'') (int 5) = Inr []"
    by (simp add: model_defs)
  then show ?thesis
    using no_pages_selected [of "\<lparr>open_input = Some 5, insert_raises = [], save_ok = True\<rparr>" 5
        "pystr ''20''"]
    by simp
qed

section \<open>Success and failure of the parser, token by token\<close>

lemma two_fields_hyphen:
  assumes "str_split HYPHEN part = [a, b]"
  shows "HYPHEN \<in> set part" and "part \<noteq> []"
proof -
  have "count_list part HYPHEN = 1"
    using length_str_split [of HYPHEN part] assms by simp
  then show "HYPHEN \<in> set part"
    by (metis count_list_0_iff zero_neq_one)
  then show "part \<noteq> []" by auto
qed

lemma parse_part_two_fields:
  assumes "str_split HYPHEN part = [a, b]"
    and "py_int a = Some s" and "py_int b = Some e"
  shows "parse_part part =
           (if s > e then Inl (InvalidRangeOrder part)
            else if e + 1 - s > maxsize then Inl OverflowError
            else Inr [s..e])"
  using assms two_fields_hyphen(1) [OF assms(1)] by (simp add: parse_part_def)

lemma parse_page_ranges_Inr_iff:
  "parse_page_ranges spec t = Inr r \<longleftrightarrow>
     (\<forall>tok \<in> set (str_split COMMA spec). token_ok tok) \<and>
     r = filter_pages (concat (map token_values (str_split COMMA spec))) t {} []"
proof (cases "parse_parts (str_split COMMA spec) []")
  case (Inl e)
  then have "\<not> (\<forall>tok \<in> set (str_split COMMA spec). token_ok tok)"
    using parse_parts_Inr_iff [of "str_split COMMA spec" "[]"] by auto
  with Inl show ?thesis by (simp add: parse_page_ranges_def)
next
  case (Inr pages)
  then show ?thesis
    using parse_parts_Inr_iff [of "str_split COMMA spec" "[]" pages]
    by (auto simp: parse_page_ranges_def)
qed

lemma parse_page_ranges_Inl_iff:
  "parse_page_ranges spec t = Inl e \<longleftrightarrow> parse_parts (str_split COMMA spec) [] = Inl e"
  by (auto simp: parse_page_ranges_def split: sum.splits)

lemma first_bad_token:
  assumes "str_split COMMA spec = pre @ tok # post"
    and "str_strip tok \<noteq> []" and "parse_part (str_strip tok) = Inl e"
  shows "\<exists>e'. parse_page_ranges spec t = Inl e'"
    and "(\<forall>q \<in> set pre. token_ok q) \<Longrightarrow> parse_page_ranges spec t = Inl e"
proof -
  have "\<not> token_ok tok" using assms(2,3) by (simp add: token_ok_def)
  then have "\<not> (\<forall>q \<in> set (str_split COMMA spec). token_ok q)"
    using assms(1) by simp
  then have "\<forall>r. parse_page_ranges spec t \<noteq> Inr r"
    by (simp add: parse_page_ranges_Inr_iff)
  then show "\<exists>e'. parse_page_ranges spec t = Inl e'"
    by (cases "parse_page_ranges spec t") auto
  assume "\<forall>q \<in> set pre. token_ok q"
  with assms
  have "\<exists>pre' p post'. str_split COMMA spec = pre' @ p # post' \<and>
      (\<forall>q \<in> set pre'. token_ok q) \<and> str_strip p \<noteq> [] \<and>
      parse_part (str_strip p) = Inl e"
    by blast
  then show "parse_page_ranges spec t = Inl e"
    by (simp only: parse_page_ranges_Inl_iff parse_parts_Inl_iff)
qed

section \<open>Order, range and range errors\<close>

text \<open>
  C4. Whenever \<open>parse_page_ranges\<close> succeeds, its result is the in-range values of
  the working sequence in the order of their first occurrence, where the working
  sequence is the concatenation, token after token, of what each token stands for; a
  range token stands for \<open>start, start + 1, ..., end\<close>, ascending (a range of more
  than \<open>sys.maxsize\<close> values cannot be expanded, and then the parse does not
  succeed). The result is not sorted: \<open>"10,1"\<close> with 10 pages gives \<open>[10, 1]\<close>.
\<close>

theorem first_occurrence_order:
  "(parse_page_ranges spec t = Inr r \<longrightarrow>
      r = first_occurrences (filter (\<lambda>p. 1 \<le> p \<and> p \<le> t)
            (concat (map token_values (str_split COMMA spec))))) \<and>
   (str_split HYPHEN (str_strip tok) = [a, b] \<and> py_int a = Some start \<and>
      py_int b = Some end \<and> start \<le> end \<and> end + 1 - start \<le> maxsize \<longrightarrow>
      token_values tok = [start..end]) \<and>
   parse_page_ranges (pystr ''10,1'') 10 = Inr [10, 1]"
proof (intro conjI impI)
  assume "parse_page_ranges spec t = Inr r"
  then have "r = filter_pages (concat (map token_values (str_split COMMA spec))) t {} []"
    by (simp add: parse_page_ranges_Inr_iff)
  then show "r = first_occurrences (filter (\<lambda>p. 1 \<le> p \<and> p \<le> t)
            (concat (map token_values (str_split COMMA spec))))"
    by (simp add: filter_pages_first_occurrences)
next
  assume h: "str_split HYPHEN (str_strip tok) = [a, b] \<and> py_int a = Some start \<and>
      py_int b = Some end \<and> start \<le> end \<and> end + 1 - start \<le> maxsize"
  then have "parse_part (str_strip tok) = Inr [start..end]"
    using parse_part_two_fields [of "str_strip tok" a b start "end"] by simp
  then show "token_values tok = [start..end]" by (simp add: token_values_def)
next
  show "parse_page_ranges (pystr ''10,1'') 10 = Inr [10, 1]"
    by (simp add: model_defs)
qed

theorem first_occurrence_order_witness:
  "parse_page_ranges (pystr ''4,2-5,1-2'') 4 = Inr [4, 2, 3, 1] \<and>
   first_occurrences (filter (\<lambda>p. 1 \<le> p \<and> p \<le> 4) [4, 2, 3, 4, 5, 1, 2]) = [4, 2, 3, 1] \<and>
   token_values (pystr '' 2-5'') = [2, 3, 4, 5]"
proof -
  have r: "parse_page_ranges (pystr ''4,2-5,1-2'') 4 = Inr [4, 2, 3, 1]"
    by (simp add: model_defs)
  have v: "concat (map token_values (str_split COMMA (pystr ''4,2-5,1-2'')))
             = [4, 2, 3, 4, 5, 1, 2]"
    by (simp add: token_values_def model_defs)
  have f: "str_split HYPHEN (str_strip (pystr '' 2-5'')) = [pystr ''2'', pystr ''5'']"
    "py_int (pystr ''2'') = Some 2" "py_int (pystr ''5'') = Some 5"
    "(5::int) + 1 - 2 \<le> maxsize"
    by (simp_all add: model_defs)
  from first_occurrence_order [of "pystr ''4,2-5,1-2''" 4 "[4, 2, 3, 1]" "pystr '' 2-5''"
      "pystr ''2''" "pystr ''5''" 2 5] r v f
  show ?thesis by simp
qed

lemma success_by_tokens:
  "((\<exists>r. parse_page_ranges spec t = Inr r) \<longleftrightarrow>
      (\<forall>tok \<in> set (str_split COMMA spec). token_ok tok)) \<and>
   ((\<exists>r. parse_page_ranges spec t = Inr r) \<longleftrightarrow>
      (\<exists>r. parse_page_ranges spec t' = Inr r)) \<and>
   (\<forall>r. parse_page_ranges spec t = Inr r \<longrightarrow>
      set r = {p \<in> set (concat (map token_values (str_split COMMA spec))). 1 \<le> p \<and> p \<le> t})"
proof (intro conjI allI impI)
  show "(\<exists>r. parse_page_ranges spec t = Inr r) \<longleftrightarrow>
      (\<forall>tok \<in> set (str_split COMMA spec). token_ok tok)"
    by (simp add: parse_page_ranges_Inr_iff)
next
  show "(\<exists>r. parse_page_ranges spec t = Inr r) \<longleftrightarrow>
      (\<exists>r. parse_page_ranges spec t' = Inr r)"
    by (simp add: parse_page_ranges_Inr_iff)
next
  fix r assume "parse_page_ranges spec t = Inr r"
  then have "r = filter_pages (concat (map token_values (str_split COMMA spec))) t {} []"
    by (simp add: parse_page_ranges_Inr_iff)
  then show "set r = {p \<in> set (concat (map token_values (str_split COMMA spec))). 1 \<le> p \<and> p \<le> t}"
    by (simp only: filter_pages_set) auto
qed

text \<open>
  C5. A well-formed token whose values lie outside \<open>[1, total_pages]\<close> should raise
  no error and just be left out of the result, as \<open>"20"\<close> with 5 pages gives \<open>[]\<close>.
  The page count indeed never decides whether the parse succeeds, and a result holds
  exactly the token values within \<open>[1, total_pages]\<close> (lemma \<open>success_by_tokens\<close>).
  But the first loop expands a range before anything is filtered, and a range of more
  than \<open>sys.maxsize\<close> values cannot be expanded: \<open>"6-99999999999999999999"\<close>, a
  range from 6 to a larger number with every value beyond the 5 pages, raises
  \<open>OverflowError\<close> where the claim has \<open>[]\<close>, and \<open>extract_pages\<close> is left with the
  source open.
\<close>

theorem long_range_overflows:
  "parse_page_ranges (pystr ''20'') 5 = Inr [] \<and>
   str_split HYPHEN (pystr ''6-99999999999999999999'')
     = [pystr ''6'', pystr ''99999999999999999999''] \<and>
   py_int (pystr ''6'') = Some 6 \<and>
   py_int (pystr ''99999999999999999999'') = Some 99999999999999999999 \<and>
   parse_page_ranges (pystr ''6-99999999999999999999'') 5 = Inl OverflowError \<and>
   extract_pages \<lparr>open_input = Some 5, insert_raises = [], save_ok = True\<rparr>
     (pystr ''6-99999999999999999999'') = ([OpenSource], Uncaught)"
  by (simp add: extract_pages_def model_defs)




section \<open>Signs\<close>

lemma py_int_negative_hyphen:
  assumes "py_int s = Some v" and "v < 0"
  shows "HYPHEN \<in> set s"
proof -
  have "long_from_string (map to_ascii s) = Some v"
    using assms(1) by (simp add: py_int_def)
  then have "HYPHEN \<in> set (map to_ascii s)"
    using assms(2) by (rule long_from_string_negative)
  then obtain c where "c \<in> set s" "to_ascii c = HYPHEN" by auto
  then show ?thesis by (simp add: to_ascii_HYPHEN)
qed

lemma py_int_all_int_space:
  "\<forall>c \<in> set w. int_space c \<Longrightarrow> py_int w = None"
  unfolding py_int_def by (rule long_from_string_all_space) (simp add: int_space_def)

lemma py_int_before_hyphen:
  assumes "py_int s = Some v" and "HYPHEN \<in> set s"
  shows "py_int (takeWhile (\<lambda>c. c \<noteq> HYPHEN) s) = None"
proof -
  have m: "HYPHEN \<in> set (map to_ascii s)"
    using assms(2) to_ascii_HYPHEN by force
  have "takeWhile (\<lambda>c. c \<noteq> HYPHEN) (map to_ascii s)
          = map to_ascii (takeWhile (\<lambda>c. c \<noteq> HYPHEN) s)"
    by (simp add: takeWhile_map comp_def to_ascii_HYPHEN)
  moreover have "\<forall>c \<in> set (takeWhile (\<lambda>c. c \<noteq> HYPHEN) (map to_ascii s)). ascii_isspace c"
    using long_from_string_before_hyphen [OF _ m] assms(1) by (simp add: py_int_def)
  ultimately have "\<forall>c \<in> set (takeWhile (\<lambda>c. c \<noteq> HYPHEN) s). int_space c"
    by (simp add: int_space_def)
  then show ?thesis by (rule py_int_all_int_space)
qed

lemma parse_part_first_field_bad:
  assumes "HYPHEN \<in> set part" and "str_split HYPHEN part = a # rest" and "py_int a = None"
  shows "parse_part part = Inl (InvalidRange part)"
  using assms by (simp add: parse_part_def split: list.splits)

lemma split_at_first:
  assumes "x \<in> set s"
  shows "s = takeWhile (\<lambda>c. c \<noteq> x) s @ x # tl (dropWhile (\<lambda>c. c \<noteq> x) s)"
proof -
  have "dropWhile (\<lambda>c. c \<noteq> x) s \<noteq> []"
    using assms by simp
  moreover have "hd (dropWhile (\<lambda>c. c \<noteq> x) s) = x"
    using assms hd_dropWhile [of "\<lambda>c. c \<noteq> x" s] calculation by auto
  ultimately have "dropWhile (\<lambda>c. c \<noteq> x) s = x # tl (dropWhile (\<lambda>c. c \<noteq> x) s)"
    by (metis list.collapse)
  then show ?thesis by (metis takeWhile_dropWhile_id)
qed

lemma signed_token_invalid:
  assumes "py_int s = Some v" and "HYPHEN \<in> set s"
  shows "parse_part s = Inl (InvalidRange s)"
proof -
  let ?a = "takeWhile (\<lambda>c. c \<noteq> HYPHEN) s"
  let ?b = "tl (dropWhile (\<lambda>c. c \<noteq> HYPHEN) s)"
  have s: "s = ?a @ HYPHEN # ?b" using assms(2) by (rule split_at_first)
  have "HYPHEN \<notin> set ?a" by (auto dest: set_takeWhileD)
  then have "str_split HYPHEN (?a @ HYPHEN # ?b) = ?a # str_split HYPHEN ?b"
    by (rule str_split_append_sep)
  with s have "str_split HYPHEN s = ?a # str_split HYPHEN ?b" by simp
  with assms(2) show ?thesis
    using py_int_before_hyphen [OF assms] by (rule parse_part_first_field_bad)
qed

lemma parse_page_ranges_in_range:
  assumes "parse_page_ranges spec t = Inr r" and "p \<in> set r"
  shows "1 \<le> p \<and> p \<le> t"
proof -
  from assms(1) obtain pages where "r = filter_pages pages t {} []"
    by (auto simp: parse_page_ranges_def split: sum.splits)
  with assms(2) show ?thesis by (simp add: filter_pages_set)
qed

lemma parse_page_ranges_total:
  "(\<exists>e. parse_page_ranges spec t = Inl e) \<longleftrightarrow>
     \<not> (\<forall>tok \<in> set (str_split COMMA spec). token_ok tok)"
proof -
  have "(\<exists>e. parse_page_ranges spec t = Inl e) \<longleftrightarrow> \<not> (\<exists>r. parse_page_ranges spec t = Inr r)"
    by (cases "parse_page_ranges spec t") auto
  then show ?thesis by (simp add: parse_page_ranges_Inr_iff)
qed

text \<open>
  C1, as amended. Take a token of the specification that, stripped, \<open>int\<close> reads as a
  number \<open>v \<le> 0\<close>. If it holds no hyphen then \<open>v = 0\<close>, the token raises no error
  and contributes the value 0. If it holds a hyphen, as every token of a negative
  number does (\<open>"-3"\<close>, and also \<open>"-0"\<close>), it is taken for a range whose first field
  is not an integer: \<open>parse_page_ranges\<close> raises for every page count, and what it
  raises is the invalid-range error naming that token when the loop gets past every
  token before it (otherwise it is what the first token raises that the loop cannot get
  past: \<open>"x,-3"\<close> fails with the invalid page number \<open>x\<close>). In no case is \<open>v\<close> in a
  result.
\<close>

theorem nonpositive_token:
  assumes "str_split COMMA spec = pre @ tok # post"
    and "py_int (str_strip tok) = Some v" and "v \<le> 0"
  shows "(v < 0 \<longrightarrow> HYPHEN \<in> set (str_strip tok)) \<and>
         (HYPHEN \<in> set (str_strip tok) \<longrightarrow>
            parse_part (str_strip tok) = Inl (InvalidRange (str_strip tok)) \<and>
            (\<exists>e. parse_page_ranges spec t = Inl e) \<and>
            ((\<forall>q \<in> set pre. token_ok q) \<longrightarrow>
               parse_page_ranges spec t = Inl (InvalidRange (str_strip tok)))) \<and>
         (HYPHEN \<notin> set (str_strip tok) \<longrightarrow>
            v = 0 \<and> parse_part (str_strip tok) = Inr [0] \<and> token_ok tok) \<and>
         (\<forall>r. parse_page_ranges spec t = Inr r \<longrightarrow> v \<notin> set r)"
proof (intro conjI impI allI)
  assume "v < 0"
  with assms(2) show "HYPHEN \<in> set (str_strip tok)" by (rule py_int_negative_hyphen)
next
  assume h: "HYPHEN \<in> set (str_strip tok)"
  with assms(2) show bad: "parse_part (str_strip tok) = Inl (InvalidRange (str_strip tok))"
    by (rule signed_token_invalid)
  from h have ne: "str_strip tok \<noteq> []" by auto
  from assms(1) ne bad show "\<exists>e. parse_page_ranges spec t = Inl e"
    by (rule first_bad_token(1))
  assume "\<forall>q \<in> set pre. token_ok q"
  with assms(1) ne bad
  show "parse_page_ranges spec t = Inl (InvalidRange (str_strip tok))"
    by (rule first_bad_token(2))
next
  assume h: "HYPHEN \<notin> set (str_strip tok)"
  then have "\<not> v < 0" using py_int_negative_hyphen [OF assms(2)] by blast
  with assms(3) show v: "v = 0" by simp
  with h assms(2) show pp: "parse_part (str_strip tok) = Inr [0]"
    by (simp add: parse_part_def)
  then show "token_ok tok" by (simp add: token_ok_def)
next
  fix r assume "parse_page_ranges spec t = Inr r"
  then have "v \<in> set r \<Longrightarrow> 1 \<le> v" using parse_page_ranges_in_range by blast
  with assms(3) show "v \<notin> set r" by auto
qed

theorem nonpositive_token_witness:
  "parse_part (pystr ''00'') = Inr [0] \<and> token_ok (pystr '' 00'') \<and>
   parse_page_ranges (pystr ''4, 00'') 5 = Inr [4] \<and>
   parse_page_ranges (pystr ''4,-3'') 5 = Inl (InvalidRange (pystr ''-3''))"
proof -
  have r: "parse_page_ranges (pystr ''4, 00'') 5 = Inr [4]"
    by (simp add: model_defs)
  have z: "str_split COMMA (pystr ''4, 00'') = [pystr ''4''] @ pystr '' 00'' # []"
    "py_int (str_strip (pystr '' 00'')) = Some 0"
    "str_strip (pystr '' 00'') = pystr ''00''"
    "HYPHEN \<notin> set (pystr ''00'')"
    by (simp_all add: model_defs)
  have m: "str_split COMMA (pystr ''4,-3'') = [pystr ''4''] @ pystr ''-3'' # []"
    "py_int (str_strip (pystr ''-3'')) = Some (- 3)"
    "str_strip (pystr ''-3'') = pystr ''-3''"
    "HYPHEN \<in> set (pystr ''-3'')"
    "\<forall>q \<in> set [pystr ''4'']. token_ok q"
    by (simp_all add: token_ok_def model_defs)
  from nonpositive_token [of "pystr ''4, 00''" "[pystr ''4'']" "pystr '' 00''" "[]" 0 5] z
  have 1: "parse_part (pystr ''00'') = Inr [0] \<and> token_ok (pystr '' 00'')" by simp
  from nonpositive_token [of "pystr ''4,-3''" "[pystr ''4'']" "pystr ''-3''" "[]" "- 3" 5] m
  have 2: "parse_page_ranges (pystr ''4,-3'') 5 = Inl (InvalidRange (pystr ''-3''))" by simp
  from 1 2 r show ?thesis by simp
qed

theorem negative_token_counterexample:
  "py_int (pystr ''-3'') = Some (- 3) \<and>
   parse_page_ranges (pystr ''-3'') 10 = Inl (InvalidRange (pystr ''-3'')) \<and>
   parse_page_ranges (pystr ''x,-3'') 10 = Inl (InvalidPageNumber (pystr ''x''))"
  by (simp add: model_defs)

lemma is_decimal_plain:
  assumes "is_decimal c"
  shows "c \<noteq> HYPHEN" "c \<noteq> COMMA" "\<not> py_isspace c" "to_ascii c \<noteq> UNDERSCORE"
proof -
  have d: "48 \<le> to_ascii c" "to_ascii c \<le> 57"
    using assms by (simp_all add: is_decimal_def ascii_isdigit_def)
  show "to_ascii c \<noteq> UNDERSCORE" using d by (simp add: UNDERSCORE_def)
  show "c \<noteq> HYPHEN" using d to_ascii_HYPHEN [of c] by (auto simp: HYPHEN_def)
  show "c \<noteq> COMMA" using d by (auto simp: COMMA_def to_ascii_def)
  show "\<not> py_isspace c"
  proof (cases "c < 127")
    case True
    then have "to_ascii c = c" by (simp add: to_ascii_def)
    with d show ?thesis by (simp add: py_isspace_def)
  next
    case False
    then have "127 \<le> c" by simp
    from to_ascii_high [OF this] d show ?thesis by auto
  qed
qed

lemma str_strip_id:
  assumes "s \<noteq> []" and "\<not> py_isspace (hd s)" and "\<not> py_isspace (last s)"
  shows "str_strip s = s"
proof -
  have 1: "dropWhile py_isspace s = s" using assms(1,2) by (cases s) auto
  have "rev s \<noteq> []" "\<not> py_isspace (hd (rev s))"
    using assms(1,3) by (simp_all add: hd_rev)
  then have 2: "dropWhile py_isspace (rev s) = rev s" by (cases "rev s") auto
  show ?thesis unfolding str_strip_def 1 2 by simp
qed

lemma digits_part_digits:
  assumes "ds \<noteq> []" and "\<forall>c \<in> set ds. ascii_isdigit c"
    and "length ds \<le> int_max_str_digits"
  shows "digits_part ds = Some (digits_value ds)"
proof -
  let ?D = "\<lambda>c. ascii_isdigit c \<or> c = UNDERSCORE"
  have all: "\<forall>c \<in> set ds. ?D c" using assms(2) by simp
  have "takeWhile ?D (ds @ []) = ds @ takeWhile ?D []"
    using all by (rule takeWhile_all_append)
  then have 1: "takeWhile ?D ds = ds" by simp
  have 2: "dropWhile ?D ds = []" using all by (rule dropWhile_all_Nil)
  have "UNDERSCORE \<notin> set ds"
    using assms(2) by (auto simp: ascii_isdigit_def UNDERSCORE_def)
  then have 3: "str_split UNDERSCORE ds = [ds]" by (rule str_split_no_sep)
  show ?thesis unfolding digits_part_def Let_def 1 2 3 using assms(1,3) by simp
qed

lemma digits_part_too_long:
  assumes "\<forall>c \<in> set ds. ascii_isdigit c" and "int_max_str_digits < length ds"
  shows "digits_part ds = None"
proof -
  let ?D = "\<lambda>c. ascii_isdigit c \<or> c = UNDERSCORE"
  have all: "\<forall>c \<in> set ds. ?D c" using assms(1) by simp
  have "takeWhile ?D (ds @ []) = ds @ takeWhile ?D []"
    using all by (rule takeWhile_all_append)
  then have 1: "takeWhile ?D ds = ds" by simp
  have "UNDERSCORE \<notin> set ds"
    using assms(1) by (auto simp: ascii_isdigit_def UNDERSCORE_def)
  then have 3: "str_split UNDERSCORE ds = [ds]" by (rule str_split_no_sep)
  show ?thesis unfolding digits_part_def Let_def 1 3 using assms(2) by simp
qed

lemma plus_sign_read:
  "py_int (PLUS # ds) = digits_part (map to_ascii ds)"
proof -
  have "to_ascii PLUS = PLUS" "\<not> ascii_isspace PLUS" "PLUS \<noteq> HYPHEN"
    by (simp_all add: to_ascii_def PLUS_def ascii_isspace_def HYPHEN_def)
  then show ?thesis by (simp add: py_int_def long_from_string_def)
qed

lemma py_int_plus_digits:
  assumes "ds \<noteq> []" and "\<forall>c \<in> set ds. is_decimal c"
    and "length ds \<le> int_max_str_digits"
  shows "py_int (PLUS # ds) = Some (digits_value (map to_ascii ds))"
proof -
  have "digits_part (map to_ascii ds) = Some (digits_value (map to_ascii ds))"
    using assms by (intro digits_part_digits) (simp_all add: is_decimal_def)
  then show ?thesis by (simp add: plus_sign_read)
qed

lemma py_int_plus_too_long:
  assumes "\<forall>c \<in> set ds. is_decimal c" and "int_max_str_digits < length ds"
  shows "py_int (PLUS # ds) = None"
proof -
  have "digits_part (map to_ascii ds) = None"
    using assms by (intro digits_part_too_long) (simp_all add: is_decimal_def)
  then show ?thesis by (simp add: plus_sign_read)
qed

lemma plus_token_plain:
  assumes "ds \<noteq> []" and "\<forall>c \<in> set ds. is_decimal c"
  shows "HYPHEN \<notin> set (PLUS # ds)" "COMMA \<notin> set (PLUS # ds)"
    "str_strip (PLUS # ds) = PLUS # ds"
proof -
  show "HYPHEN \<notin> set (PLUS # ds)"
    using assms(2) is_decimal_plain(1) by (auto simp: PLUS_def HYPHEN_def)
  show "COMMA \<notin> set (PLUS # ds)"
    using assms(2) is_decimal_plain(2) by (auto simp: PLUS_def COMMA_def)
  have "\<not> py_isspace (hd (PLUS # ds))" by (simp add: py_isspace_def PLUS_def)
  moreover have "\<not> py_isspace (last (PLUS # ds))"
    using assms is_decimal_plain(3) by simp
  ultimately show "str_strip (PLUS # ds) = PLUS # ds"
    by (intro str_strip_id) simp_all
qed

lemma plus_zeros_three:
  assumes "int_max_str_digits \<le> k"
  shows "digits_value (map to_ascii (replicate k 48 @ [51])) = 3"
    and "parse_page_ranges (PLUS # replicate k 48 @ [51]) t
           = Inl (InvalidPageNumber (PLUS # replicate k 48 @ [51]))"
proof -
  let ?ds = "replicate k 48 @ [51]"
  have a: "to_ascii 48 = 48" "to_ascii 51 = 51" by (simp_all add: to_ascii_def)
  have zeros: "foldl (\<lambda>a c. 10 * a + int (c - 48)) 0 (replicate j 48) = 0" for j
    by (induction j) simp_all
  have "map to_ascii ?ds = ?ds" using a by simp
  moreover have "digits_value ?ds = 3"
    by (simp add: digits_value_def zeros)
  ultimately show "digits_value (map to_ascii ?ds) = 3"
    by (simp only:)
  have ne: "?ds \<noteq> []" by simp
  have dec: "\<forall>c \<in> set ?ds. is_decimal c"
    using a by (auto simp: is_decimal_def ascii_isdigit_def)
  have "int_max_str_digits < length ?ds" using assms by simp
  with dec have "py_int (PLUS # ?ds) = None" by (rule py_int_plus_too_long)
  then have pp: "parse_part (PLUS # ?ds) = Inl (InvalidPageNumber (PLUS # ?ds))"
    using plus_token_plain(1) [OF ne dec] by (simp add: parse_part_def)
  have strip: "str_strip (PLUS # ?ds) = PLUS # ?ds"
    using ne dec by (rule plus_token_plain(3))
  have "str_split COMMA (PLUS # ?ds) = [PLUS # ?ds]"
    using plus_token_plain(2) [OF ne dec] by (rule str_split_no_sep)
  then have "parse_parts (str_split COMMA (PLUS # ?ds)) [] = Inl (InvalidPageNumber (PLUS # ?ds))"
    using pp strip by simp
  then show "parse_page_ranges (PLUS # ?ds) t = Inl (InvalidPageNumber (PLUS # ?ds))"
    by (simp add: parse_page_ranges_def)
qed

text \<open>
  C9, as amended. A token made of a plus sign and one or more decimal digits, at most
  4300 of them, that denote \<open>n\<close> with \<open>1 \<le> n \<le> total_pages\<close>: alone it parses to
  \<open>[n]\<close>; as one token of any specification it raises no error, and \<open>n\<close> is in the
  result whenever the parse succeeds. (With more than 4300 digits \<open>int\<close> refuses the
  token: a plus sign, 4300 zeros and a 3 denote 3, yet fail with the invalid page
  number error.)
\<close>

theorem plus_sign_token:
  assumes "ds \<noteq> []" and "\<forall>c \<in> set ds. is_decimal c"
    and "length ds \<le> int_max_str_digits"
    and "n = digits_value (map to_ascii ds)" and "1 \<le> n" and "n \<le> t"
  shows "parse_page_ranges (PLUS # ds) t = Inr [n] \<and>
         (tok \<in> set (str_split COMMA spec) \<and> str_strip tok = PLUS # ds \<longrightarrow>
            token_ok tok \<and>
            (\<forall>r. parse_page_ranges spec t = Inr r \<longrightarrow> n \<in> set r))"
proof
  have pp: "parse_part (PLUS # ds) = Inr [n]"
    using plus_token_plain(1) [OF assms(1,2)] py_int_plus_digits [OF assms(1,2,3)] assms(4)
    by (simp add: parse_part_def)
  have strip: "str_strip (PLUS # ds) = PLUS # ds"
    using assms(1,2) by (rule plus_token_plain(3))
  have "str_split COMMA (PLUS # ds) = [PLUS # ds]"
    using plus_token_plain(2) [OF assms(1,2)] by (rule str_split_no_sep)
  then have "parse_parts (str_split COMMA (PLUS # ds)) [] = Inr [n]"
    using pp strip by simp
  then show "parse_page_ranges (PLUS # ds) t = Inr [n]"
    using assms(5,6) by (simp add: parse_page_ranges_def)
  show "tok \<in> set (str_split COMMA spec) \<and> str_strip tok = PLUS # ds \<longrightarrow>
            token_ok tok \<and> (\<forall>r. parse_page_ranges spec t = Inr r \<longrightarrow> n \<in> set r)"
  proof (intro impI conjI allI)
    assume h: "tok \<in> set (str_split COMMA spec) \<and> str_strip tok = PLUS # ds"
    with pp show "token_ok tok" by (simp add: token_ok_def)
    fix r assume "parse_page_ranges spec t = Inr r"
    then have r: "r = filter_pages (concat (map token_values (str_split COMMA spec))) t {} []"
      by (simp add: parse_page_ranges_Inr_iff)
    have "token_values tok = [n]" using h pp by (simp add: token_values_def)
    with h have "n \<in> set (concat (map token_values (str_split COMMA spec)))"
      by force
    with r assms(5,6) show "n \<in> set r" by (simp add: filter_pages_set)
  qed
qed

theorem plus_sign_token_witness:
  "parse_page_ranges (pystr ''+3'') 5 = Inr [3] \<and> token_ok (pystr '' +3 '')"
proof -
  have "pystr ''3'' \<noteq> []" "\<forall>c \<in> set (pystr ''3''). is_decimal c"
    "length (pystr ''3'') \<le> int_max_str_digits"
    "3 = digits_value (map to_ascii (pystr ''3''))" "(1::int) \<le> 3" "(3::int) \<le> 5"
    "pystr '' +3 '' \<in> set (str_split COMMA (pystr ''1, +3 ,2''))"
    "str_strip (pystr '' +3 '') = PLUS # pystr ''3''"
    "PLUS # pystr ''3'' = pystr ''+3''"
    by (simp_all add: is_decimal_def model_defs)
  with plus_sign_token [of "pystr ''3''" 3 5 "pystr '' +3 ''" "pystr ''1, +3 ,2''"]
  show ?thesis by simp
qed

theorem plus_sign_counterexample:
  "digits_value (map to_ascii (replicate 4300 48 @ [51])) = 3 \<and>
   parse_page_ranges (PLUS # replicate 4300 48 @ [51]) 5
     = Inl (InvalidPageNumber (PLUS # replicate 4300 48 @ [51]))"
proof -
  have k: "int_max_str_digits \<le> 4300" by (simp add: int_max_str_digits_def)
  show ?thesis
    by (rule conjI) (rule plus_zeros_three(1) [OF k], rule plus_zeros_three(2) [OF k])
qed

section \<open>Whitespace inside a range token\<close>

lemma py_int_append_space:
  assumes "\<forall>c \<in> set w. int_space c"
  shows "py_int (s @ w) = py_int s"
proof -
  have "\<forall>c \<in> set (map to_ascii w). ascii_isspace c"
    using assms by (simp add: int_space_def)
  then show ?thesis
    unfolding py_int_def map_append by (rule long_from_string_append_space)
qed

lemma py_int_prepend_space:
  assumes "\<forall>c \<in> set w. int_space c"
  shows "py_int (w @ s) = py_int s"
proof -
  have "\<forall>c \<in> set (map to_ascii w). ascii_isspace c"
    using assms by (simp add: int_space_def)
  then show ?thesis
    unfolding py_int_def map_append by (rule long_from_string_prepend_space)
qed

lemma int_space_plain:
  assumes "int_space c"
  shows "py_isspace c" "c \<noteq> HYPHEN" "c \<noteq> COMMA"
  using assms unfolding int_space_iff
  by (auto simp: py_isspace_def HYPHEN_def COMMA_def)

lemma case_three_fields:
  "3 \<le> length fs \<Longrightarrow> (case fs of [] \<Rightarrow> d | [a] \<Rightarrow> d | [a, b] \<Rightarrow> f a b | a # b # c # r \<Rightarrow> d) = d"
  by (auto split: list.splits)

lemma parse_part_hyphen_Inr:
  "parse_part (x @ HYPHEN # y) = Inr vs \<longleftrightarrow>
     HYPHEN \<notin> set x \<and> HYPHEN \<notin> set y \<and>
     (\<exists>s e. py_int x = Some s \<and> py_int y = Some e \<and> s \<le> e \<and>
        e + 1 - s \<le> maxsize \<and> vs = [s..e])"
proof (cases "HYPHEN \<in> set x \<or> HYPHEN \<in> set y")
  case True
  then have "0 < count_list x HYPHEN \<or> 0 < count_list y HYPHEN"
    by (metis count_list_0_iff gr0I)
  then have "3 \<le> length (str_split HYPHEN (x @ HYPHEN # y))"
    by (auto simp: length_str_split)
  then have "parse_part (x @ HYPHEN # y) = Inl (InvalidRange (x @ HYPHEN # y))"
    by (auto simp: parse_part_def split: list.splits)
  with True show ?thesis by auto
next
  case False
  then have "str_split HYPHEN (x @ HYPHEN # y) = [x, y]"
    by (simp add: str_split_append_sep str_split_no_sep)
  then show ?thesis using False
    by (auto simp: parse_part_def split: option.splits)
qed

lemma str_strip_hyphen:
  "str_strip (x @ HYPHEN # y) =
     dropWhile py_isspace x @ HYPHEN # rev (dropWhile py_isspace (rev y))"
proof -
  have n: "\<not> py_isspace HYPHEN" by (simp add: py_isspace_def HYPHEN_def)
  have 1: "dropWhile py_isspace (x @ HYPHEN # y) = dropWhile py_isspace x @ HYPHEN # y"
    using n by (rule dropWhile_append3)
  have 2: "dropWhile py_isspace (rev y @ HYPHEN # rev (dropWhile py_isspace x))
             = dropWhile py_isspace (rev y) @ HYPHEN # rev (dropWhile py_isspace x)"
    using n by (rule dropWhile_append3)
  show ?thesis unfolding str_strip_def 1 by (simp add: 2)
qed

lemma lstrip_append_space:
  assumes "\<forall>c \<in> set w. int_space c"
  shows "\<exists>w'. (\<forall>c \<in> set w'. int_space c) \<and>
           dropWhile py_isspace (s @ w) = dropWhile py_isspace s @ w'"
proof (cases "\<forall>c \<in> set s. py_isspace c")
  case True
  have w: "\<forall>c \<in> set w. py_isspace c" using assms int_space_plain(1) by blast
  have "dropWhile py_isspace (s @ w) = dropWhile py_isspace w"
    using True by (rule dropWhile_all_append)
  also have "\<dots> = []" using w by (rule dropWhile_all_Nil)
  finally have a: "dropWhile py_isspace (s @ w) = []" .
  have b: "dropWhile py_isspace s = []" using True by (rule dropWhile_all_Nil)
  show ?thesis unfolding a b by (intro exI [of _ "[]"]) simp
next
  case False
  then have "dropWhile py_isspace (s @ w) = dropWhile py_isspace s @ w"
    by (rule dropWhile_some_append)
  with assms show ?thesis by blast
qed

lemma rstrip_prepend_space:
  assumes "\<forall>c \<in> set w. int_space c"
  shows "\<exists>w'. (\<forall>c \<in> set w'. int_space c) \<and>
           rev (dropWhile py_isspace (rev (w @ s))) = w' @ rev (dropWhile py_isspace (rev s))"
proof -
  have "\<forall>c \<in> set (rev w). int_space c" using assms by simp
  from lstrip_append_space [OF this, of "rev s"]
  obtain w' where w': "\<forall>c \<in> set w'. int_space c"
    "dropWhile py_isspace (rev s @ rev w) = dropWhile py_isspace (rev s) @ w'" by blast
  then have "rev (dropWhile py_isspace (rev (w @ s))) = rev w' @ rev (dropWhile py_isspace (rev s))"
    by simp
  moreover have "\<forall>c \<in> set (rev w'). int_space c" using w'(1) by simp
  ultimately show ?thesis by blast
qed

lemma spaced_token_parse_part:
  assumes "\<forall>c \<in> set w1. int_space c" and "\<forall>c \<in> set w2. int_space c"
  shows "parse_part (str_strip (x @ w1 @ HYPHEN # w2 @ y)) = Inr vs \<longleftrightarrow>
         parse_part (str_strip (x @ HYPHEN # y)) = Inr vs"
proof -
  obtain u where u: "\<forall>c \<in> set u. int_space c"
    "dropWhile py_isspace (x @ w1) = dropWhile py_isspace x @ u"
    using lstrip_append_space [OF assms(1)] by blast
  obtain v where v: "\<forall>c \<in> set v. int_space c"
    "rev (dropWhile py_isspace (rev (w2 @ y))) = v @ rev (dropWhile py_isspace (rev y))"
    using rstrip_prepend_space [OF assms(2)] by blast
  let ?x = "dropWhile py_isspace x" and ?y = "rev (dropWhile py_isspace (rev y))"
  have 1: "str_strip (x @ w1 @ HYPHEN # w2 @ y) = (?x @ u) @ HYPHEN # (v @ ?y)"
    using str_strip_hyphen [of "x @ w1" "w2 @ y"] u(2) v(2) by simp
  have 0: "str_strip (x @ HYPHEN # y) = ?x @ HYPHEN # ?y"
    by (rule str_strip_hyphen)
  have hu: "HYPHEN \<notin> set u" and hv: "HYPHEN \<notin> set v"
    using u(1) v(1) int_space_plain(2) by blast+
  have iu: "py_int (?x @ u) = py_int ?x" using u(1) by (rule py_int_append_space)
  have iv: "py_int (v @ ?y) = py_int ?y" using v(1) by (rule py_int_prepend_space)
  show ?thesis
    unfolding 1 0 parse_part_hyphen_Inr iu iv using hu hv by auto
qed

lemma token_ok_alt:
  "token_ok tok \<longleftrightarrow> str_strip tok = [] \<or> (\<exists>vs. parse_part (str_strip tok) = Inr vs)"
  by (cases "parse_part (str_strip tok)") (simp_all add: token_ok_def)

lemma spaced_token_same:
  assumes "\<forall>c \<in> set w1. int_space c" and "\<forall>c \<in> set w2. int_space c"
  shows "token_ok (x @ w1 @ HYPHEN # w2 @ y) = token_ok (x @ HYPHEN # y)"
    and "token_values (x @ w1 @ HYPHEN # w2 @ y) = token_values (x @ HYPHEN # y)"
proof -
  let ?p1 = "parse_part (str_strip (x @ w1 @ HYPHEN # w2 @ y))"
  let ?p0 = "parse_part (str_strip (x @ HYPHEN # y))"
  have eq: "?p1 = Inr vs \<longleftrightarrow> ?p0 = Inr vs" for vs
    using assms by (rule spaced_token_parse_part)
  have "str_strip ((x @ w1) @ HYPHEN # (w2 @ y)) \<noteq> []"
    unfolding str_strip_hyphen by simp
  then have ne1: "str_strip (x @ w1 @ HYPHEN # w2 @ y) \<noteq> []" by simp
  have ne0: "str_strip (x @ HYPHEN # y) \<noteq> []"
    unfolding str_strip_hyphen by simp
  note ne = ne1 ne0
  show "token_values (x @ w1 @ HYPHEN # w2 @ y) = token_values (x @ HYPHEN # y)"
  proof (cases ?p1)
    case (Inl e1)
    have "\<forall>vs. ?p0 \<noteq> Inr vs"
    proof (intro allI notI)
      fix vs assume "?p0 = Inr vs"
      then have "?p1 = Inr vs" by (simp only: eq)
      with Inl show False by simp
    qed
    then obtain e0 where "?p0 = Inl e0" by (cases ?p0) auto
    with Inl show ?thesis by (simp add: token_values_def)
  next
    case (Inr vs)
    then have "?p0 = Inr vs" by (simp only: eq)
    with Inr show ?thesis by (simp add: token_values_def)
  qed
  have "(\<exists>vs. ?p1 = Inr vs) = (\<exists>vs. ?p0 = Inr vs)" by (simp only: eq)
  then show "token_ok (x @ w1 @ HYPHEN # w2 @ y) = token_ok (x @ HYPHEN # y)"
    unfolding token_ok_alt using ne by simp
qed

lemma str_split_middle:
  assumes "sep \<notin> set m"
  shows "str_split sep (a @ m @ b) =
           butlast (str_split sep a) @
           [last (str_split sep a) @ m @ hd (str_split sep b)] @ tl (str_split sep b)"
proof -
  have "str_split sep (m @ b) = [m @ hd (str_split sep b)] @ tl (str_split sep b)"
    using str_split_append [of sep m b] str_split_no_sep [OF assms] by simp
  then show ?thesis using str_split_append [of sep a "m @ b"] by simp
qed

text \<open>
  C10, as amended. Whitespace next to the hyphen of a range token changes nothing,
  provided it is whitespace that \<open>int\<close> tolerates, that is any whitespace character
  except the four separators U+001C to U+001F: with it the parse succeeds exactly
  when it succeeds without it, and with the same result; \<open>"1 - 3"\<close> gives
  \<open>[1, 2, 3]\<close>. (One of those four characters next to the hyphen, which
  \<open>strip\<close> would remove at the ends of a token, makes the field no integer:
  \<open>"1\x1c-3"\<close> fails with the invalid-range error.)
\<close>

theorem spaced_range_token:
  assumes "\<forall>c \<in> set w1. py_isspace c \<and> \<not> (28 \<le> c \<and> c \<le> 31)"
    and "\<forall>c \<in> set w2. py_isspace c \<and> \<not> (28 \<le> c \<and> c \<le> 31)"
  shows "(parse_page_ranges (a @ w1 @ HYPHEN # w2 @ b) t = Inr r \<longleftrightarrow>
          parse_page_ranges (a @ HYPHEN # b) t = Inr r) \<and>
         parse_page_ranges (pystr ''1 - 3'') 10 = Inr [1, 2, 3]"
proof
  have w1: "\<forall>c \<in> set w1. int_space c" and w2: "\<forall>c \<in> set w2. int_space c"
    using assms by (simp_all add: int_space_iff)
  let ?A = "str_split COMMA a" and ?B = "str_split COMMA b"
  have "COMMA \<notin> set (w1 @ HYPHEN # w2)"
    using w1 w2 int_space_plain(3) by (auto simp: COMMA_def HYPHEN_def)
  from str_split_middle [OF this, of a b]
  have s1: "str_split COMMA (a @ w1 @ HYPHEN # w2 @ b) =
      butlast ?A @ [last ?A @ w1 @ HYPHEN # w2 @ hd ?B] @ tl ?B" by simp
  have "COMMA \<notin> set [HYPHEN]" by (simp add: COMMA_def HYPHEN_def)
  from str_split_middle [OF this, of a b]
  have s0: "str_split COMMA (a @ HYPHEN # b) =
      butlast ?A @ [last ?A @ HYPHEN # hd ?B] @ tl ?B" by simp
  have ok: "token_ok (last ?A @ w1 @ HYPHEN # w2 @ hd ?B) = token_ok (last ?A @ HYPHEN # hd ?B)"
    using w1 w2 by (rule spaced_token_same(1))
  have vals: "token_values (last ?A @ w1 @ HYPHEN # w2 @ hd ?B)
                = token_values (last ?A @ HYPHEN # hd ?B)"
    using w1 w2 by (rule spaced_token_same(2))
  show "parse_page_ranges (a @ w1 @ HYPHEN # w2 @ b) t = Inr r \<longleftrightarrow>
          parse_page_ranges (a @ HYPHEN # b) t = Inr r"
    unfolding parse_page_ranges_Inr_iff s1 s0 by (simp add: ok vals)
  show "parse_page_ranges (pystr ''1 - 3'') 10 = Inr [1, 2, 3]"
    by (simp add: model_defs)
qed

theorem spaced_range_token_witness:
  "parse_page_ranges (pystr ''5, 2 -  4,1'') 10 = Inr [5, 2, 3, 4, 1] \<and>
   parse_page_ranges (pystr ''5, 2-4,1'') 10 = Inr [5, 2, 3, 4, 1]"
proof -
  have w: "\<forall>c \<in> set (pystr '' ''). py_isspace c \<and> \<not> (28 \<le> c \<and> c \<le> 31)"
    "\<forall>c \<in> set (pystr ''  ''). py_isspace c \<and> \<not> (28 \<le> c \<and> c \<le> 31)"
    by (simp_all add: pystr_def py_isspace_def)
  have e: "pystr ''5, 2'' @ pystr '' '' @ HYPHEN # pystr ''  '' @ pystr ''4,1'' = pystr ''5, 2 -  4,1''"
    "pystr ''5, 2'' @ HYPHEN # pystr ''4,1'' = pystr ''5, 2-4,1''"
    by (simp_all add: pystr_def HYPHEN_def)
  have r: "parse_page_ranges (pystr ''5, 2-4,1'') 10 = Inr [5, 2, 3, 4, 1]"
    by (simp add: model_defs)
  from spaced_range_token [OF w, of "pystr ''5, 2''" "pystr ''4,1''" 10 "[5, 2, 3, 4, 1]"] e r
  show ?thesis by simp
qed

theorem spaced_range_counterexample:
  "py_isspace 28 \<and>
   parse_page_ranges [49, 28, 45, 51] 10 = Inl (InvalidRange [49, 28, 45, 51]) \<and>
   parse_page_ranges [49, 45, 51] 10 = Inr [1, 2, 3]"
  by (simp add: model_defs)

section \<open>The document handles\<close>

lemma insert_pages_log:
  "insert_pages raises ps log = (log', b) \<Longrightarrow> \<exists>pgs. log' = log @ map InsertPage pgs"
proof (induction raises ps log rule: insert_pages.induct)
  case (1 raises log)
  then show ?case by simp
next
  case (2 raises page_num rest log)
  show ?case
  proof (cases "page_num - 1 \<in> set raises")
    case True
    with 2 show ?thesis by simp
  next
    case False
    with 2 obtain pgs where "log' = (log @ [InsertPage (page_num - 1)]) @ map InsertPage pgs"
      by auto
    then have "log' = log @ map InsertPage ((page_num - 1) # pgs)" by simp
    then show ?thesis by blast
  qed
qed

lemma count_InsertPage:
  "count_list (map InsertPage pgs) OpenSource = 0"
  "count_list (map InsertPage pgs) CloseSource = 0"
  "count_list (map InsertPage pgs) NewOutput = 0"
  "count_list (map InsertPage pgs) CloseOutput = 0"
  by (induction pgs) auto

lemma handled_paths_release:
  assumes "snd (extract_pages lib spec) \<noteq> Uncaught"
  shows "released_once (fst (extract_pages lib spec))"
proof (cases "open_input lib")
  case None
  then show ?thesis by (simp add: extract_pages_def released_once_def)
next
  case (Some n)
  show ?thesis
  proof (cases "n = 0")
    case True
    with Some show ?thesis by (simp add: extract_pages_def released_once_def)
  next
    case False
    show ?thesis
    proof (cases "parse_page_ranges spec (int n)")
      case (Inl e)
      with Some False assms have "e \<noteq> OverflowError"
        by (auto simp: extract_pages_def)
      with Inl Some False show ?thesis by (simp add: extract_pages_def released_once_def)
    next
      case (Inr sel)
      show ?thesis
      proof (cases "sel = []")
        case True
        with Some False Inr show ?thesis by (simp add: extract_pages_def released_once_def)
      next
        case nonempty: False
        obtain log b where ins:
          "insert_pages (insert_raises lib) sel [OpenSource, NewOutput] = (log, b)"
          by (cases "insert_pages (insert_raises lib) sel [OpenSource, NewOutput]")
        then obtain pgs where log: "log = [OpenSource, NewOutput] @ map InsertPage pgs"
          using insert_pages_log by blast
        have b using assms Some False Inr nonempty ins
          by (cases b) (simp_all add: extract_pages_def)
        with Some False Inr nonempty ins log show ?thesis
          by (cases "save_ok lib")
            (simp_all add: extract_pages_def released_once_def count_InsertPage)
      qed
    qed
  qed
qed

lemma uncaught_leaves_open:
  assumes "snd (extract_pages lib spec) = Uncaught"
  shows "count_list (fst (extract_pages lib spec)) OpenSource = 1 \<and>
         count_list (fst (extract_pages lib spec)) CloseSource = 0 \<and>
         count_list (fst (extract_pages lib spec)) CloseOutput = 0"
proof -
  from assms obtain n where n: "open_input lib = Some n" "n \<noteq> 0"
    by (auto simp: extract_pages_def split: option.splits if_splits)
  show ?thesis
  proof (cases "parse_page_ranges spec (int n)")
    case (Inl e)
    with n assms have "e = OverflowError"
      by (auto simp: extract_pages_def split: if_splits)
    with Inl n show ?thesis by (simp add: extract_pages_def)
  next
    case (Inr sel)
    obtain log b where ins:
      "insert_pages (insert_raises lib) sel [OpenSource, NewOutput] = (log, b)"
      by (cases "insert_pages (insert_raises lib) sel [OpenSource, NewOutput]")
    then obtain pgs where log: "log = [OpenSource, NewOutput] @ map InsertPage pgs"
      using insert_pages_log by blast
    from assms n Inr ins have "sel \<noteq> []" "\<not> b"
      by (auto simp: extract_pages_def split: if_splits bool.splits)
    with n Inr ins log show ?thesis
      by (simp add: extract_pages_def count_InsertPage)
  qed
qed

text \<open>
  C2. Each handle that was opened should be closed exactly once on every way out of
  \<open>extract_pages\<close>. That holds on every way out that the function handles (lemma
  \<open>handled_paths_release\<close>), and fails when an exception leaves it uncaught (lemma
  \<open>uncaught_leaves_open\<close>), as when \<open>insert_pdf\<close> raises, for which the copy
  loop has no handler: with a source of three pages none of which can be copied and
  the specification \<open>"1"\<close>, the exception leaves the function after the source was
  opened and the output created, and neither was closed.
\<close>

theorem copy_failure_leaks:
  "extract_pages \<lparr>open_input = Some 3, insert_raises = [0, 1, 2], save_ok = True\<rparr>
     (pystr ''1'') = ([OpenSource, NewOutput], Uncaught) \<and>
   \<not> released_once [OpenSource, NewOutput]"
  by (simp add: extract_pages_def released_once_def model_defs)

end
